theory Spec2Isabelle
  imports Main "HOL-Library.Multiset"
begin

section \<open>File categorisation\<close>

text \<open>
  The program is \<^verbatim>\<open>DriveFileCounterWStatus02B.py\<close>. Its core is
  \<^verbatim>\<open>categorize_file\<close> (a lookup of the lower-cased extension of a file name in
  the table \<^verbatim>\<open>FILE_CATEGORIES\<close>) and \<^verbatim>\<open>count_files_with_details\<close> (a walk of
  a directory tree in two passes).

  The standard library functions that the two call are modelled from their CPython
  sources and documentation: \<^verbatim>\<open>str.rfind\<close>, \<^verbatim>\<open>str.lower\<close>,
  \<^verbatim>\<open>os.path.splitext\<close> (which is \<^verbatim>\<open>genericpath._splitext\<close> with the
  separators of the platform), \<^verbatim>\<open>os.walk\<close>, \<^verbatim>\<open>os.scandir\<close> and the
  methods of \<^verbatim>\<open>os.DirEntry\<close>.

  A Python \<^verbatim>\<open>str\<close> is modelled as a \<open>string\<close>, whose characters are the code
  points below 256. Code points above that range are outside the model.
\<close>

subsection \<open>The platform\<close>

text \<open>
  \<^verbatim>\<open>os.path\<close> is \<^verbatim>\<open>ntpath\<close> where \<^verbatim>\<open>os.name == 'nt'\<close> and
  \<^verbatim>\<open>posixpath\<close> elsewhere. They differ in the separators handed to
  \<^verbatim>\<open>_splitext\<close>.
\<close>

datatype os_name = Nt | Posix

definition sep :: "os_name \<Rightarrow> char" where
  "sep os = (case os of Nt \<Rightarrow> CHR 0x5C | Posix \<Rightarrow> CHR ''/'')"

definition altsep :: "os_name \<Rightarrow> char option" where
  "altsep os = (case os of Nt \<Rightarrow> Some CHR ''/'' | Posix \<Rightarrow> None)"

definition extsep :: char where
  "extsep = CHR ''.''"

subsection \<open>String operations\<close>

text \<open>
  \<^verbatim>\<open>p.rfind(c)\<close> for a one-character \<^verbatim>\<open>c\<close>: the highest index at which
  \<^verbatim>\<open>c\<close> occurs in \<^verbatim>\<open>p\<close>, and \<open>-1\<close> when it does not occur. The scan
  keeps the index of the last occurrence seen so far.
\<close>

fun rfind_aux :: "char \<Rightarrow> string \<Rightarrow> int \<Rightarrow> int \<Rightarrow> int" where
  "rfind_aux c [] i found = found"
| "rfind_aux c (x # xs) i found = rfind_aux c xs (i + 1) (if x = c then i else found)"

definition rfind :: "string \<Rightarrow> char \<Rightarrow> int" where
  "rfind p c = rfind_aux c p 0 (- 1)"

text \<open>
  The slice \<^verbatim>\<open>p[i:j]\<close> for indices that are not negative (the only ones
  \<^verbatim>\<open>_splitext\<close> slices with).
\<close>

definition slice :: "string \<Rightarrow> int \<Rightarrow> int \<Rightarrow> string" where
  "slice p i j = take (nat j - nat i) (drop (nat i) p)"

text \<open>
  \<^verbatim>\<open>str.lower\<close>, character by character. Below code point 256 the characters
  with a lower-case form are \<open>A\<close> to \<open>Z\<close> and the Latin-1 capitals \<open>0xC0\<close> to
  \<open>0xDE\<close> without the multiplication sign \<open>0xD7\<close>; the lower-case form is 32
  code points further.
\<close>

definition lower_char :: "char \<Rightarrow> char" where
  "lower_char c =
     (let n = (of_char c :: nat)
      in if (65 \<le> n \<and> n \<le> 90) \<or> (192 \<le> n \<and> n \<le> 222 \<and> n \<noteq> 215)
         then char_of (n + 32) else c)"

definition lower :: "string \<Rightarrow> string" where
  "lower s = map lower_char s"

subsection \<open>\<^verbatim>\<open>os.path.splitext\<close>\<close>

text \<open>
  \<^verbatim>\<open>
  def _splitext(p, sep, altsep, extsep):
      sepIndex = p.rfind(sep)
      if altsep:
          altsepIndex = p.rfind(altsep)
          sepIndex = max(sepIndex, altsepIndex)
      dotIndex = p.rfind(extsep)
      if dotIndex > sepIndex:
          # skip all leading dots
          filenameIndex = sepIndex + 1
          while filenameIndex < dotIndex:
              if p[filenameIndex:filenameIndex+1] != extsep:
                  return p[:dotIndex], p[dotIndex:]
              filenameIndex += 1
      return p, p[:0]
  \<close>
  The \<^verbatim>\<open>while\<close> loop is \<open>skip_leading_dots\<close>: it returns the split when it
  finds a character that is not a dot before \<^verbatim>\<open>dotIndex\<close>, and \<open>None\<close> when it
  runs to its end.
\<close>

function skip_leading_dots :: "string \<Rightarrow> int \<Rightarrow> int \<Rightarrow> (string \<times> string) option" where
  "skip_leading_dots p filenameIndex dotIndex =
     (if filenameIndex < dotIndex then
        (if slice p filenameIndex (filenameIndex + 1) \<noteq> [extsep]
         then Some (take (nat dotIndex) p, drop (nat dotIndex) p)
         else skip_leading_dots p (filenameIndex + 1) dotIndex)
      else None)"
  by pat_completeness auto
termination
  by (relation "measure (\<lambda>(p, filenameIndex, dotIndex). nat (dotIndex - filenameIndex))") auto

definition splitext_generic :: "string \<Rightarrow> char \<Rightarrow> char option \<Rightarrow> string \<times> string" where
  "splitext_generic p sp alt =
     (let sepIndex = rfind p sp;
          sepIndex = (case alt of None \<Rightarrow> sepIndex
                      | Some a \<Rightarrow> max sepIndex (rfind p a));
          dotIndex = rfind p extsep
      in if dotIndex > sepIndex then
           (case skip_leading_dots p (sepIndex + 1) dotIndex of
              Some r \<Rightarrow> r
            | None \<Rightarrow> (p, []))
         else (p, []))"

definition splitext :: "os_name \<Rightarrow> string \<Rightarrow> string \<times> string" where
  "splitext os p = splitext_generic p (sep os) (altsep os)"

subsection \<open>The category table and \<^verbatim>\<open>categorize_file\<close>\<close>

text \<open>
  \<^verbatim>\<open>FILE_CATEGORIES\<close> is a \<^verbatim>\<open>dict\<close> literal. A \<^verbatim>\<open>dict\<close> keeps its keys
  in insertion order, so \<^verbatim>\<open>.items()\<close> yields the pairs in the order of the literal:
  the table is an association list in that order.
\<close>

definition FILE_CATEGORIES :: "(string \<times> string set) list" where
  "FILE_CATEGORIES =
     [(''Images'', {''.jpg'', ''.jpeg'', ''.png'', ''.gif'', ''.bmp'', ''.tiff'', ''.svg'', ''.webp''}),
      (''Videos'', {''.mp4'', ''.avi'', ''.mov'', ''.mkv'', ''.wmv'', ''.flv'', ''.webm''}),
      (''Audio'', {''.mp3'', ''.wav'', ''.flac'', ''.aac'', ''.ogg'', ''.m4a''}),
      (''Documents'', {''.txt'', ''.doc'', ''.docx'', ''.pdf'', ''.xls'', ''.xlsx'', ''.ppt'',
                       ''.pptx'', ''.csv''}),
      (''Scripts'', {''.py'', ''.js'', ''.ps1'', ''.sh'', ''.bat'', ''.cmd''}),
      (''Archives'', {''.zip'', ''.rar'', ''.7z'', ''.tar'', ''.gz''}),
      (''Applications'', {''.exe'', ''.msi'', ''.bat'', ''.cmd''})]"

text \<open>
  \<^verbatim>\<open>
  for category, extensions in FILE_CATEGORIES.items():
      if ext in extensions:
          return category
  return "Other"
  \<close>
\<close>

fun first_category :: "(string \<times> string set) list \<Rightarrow> string \<Rightarrow> string" where
  "first_category [] ext = ''Other''"
| "first_category ((category, extensions) # rest) ext =
     (if ext \<in> extensions then category else first_category rest ext)"

definition categorize_file :: "os_name \<Rightarrow> string \<Rightarrow> string" where
  "categorize_file os file_path =
     (let ext = lower (snd (splitext os file_path))
      in first_category FILE_CATEGORIES ext)"

text \<open>The extensions of the table, of all categories together.\<close>

definition known_extensions :: "string set" where
  "known_extensions = \<Union> (set (map snd FILE_CATEGORIES))"

section \<open>The scan\<close>

subsection \<open>The file system\<close>

text \<open>
  The scan reads the file system through \<^verbatim>\<open>os.walk\<close>, \<^verbatim>\<open>os.scandir\<close>
  and the methods of the entries that \<^verbatim>\<open>os.scandir\<close> yields. The model is a
  snapshot of the file system that does not change while the scan runs: a tree of
  nodes, in which a path is represented by the node it denotes.
  \<^item> \<open>Absent\<close>: nothing exists at the path.
  \<^item> \<open>RegularFile\<close>: a regular file.
  \<^item> \<open>Special\<close>: a fifo, a socket or a device.
  \<^item> \<open>Directory readable entries\<close>: a directory with its entries (name and
    node) in the order in which \<^verbatim>\<open>os.scandir\<close> yields them; \<open>readable\<close>
    tells whether listing it is permitted.
  \<^item> \<open>Symlink target\<close>: a symbolic link and what it points to (\<open>Absent\<close> for
    a dangling link).
  \<^item> \<open>UnresolvedLink error\<close>: a symbolic link that the system fails to follow,
    with the error that following it raises: \<open>OSError_ELOOP\<close> for a link that
    points to itself, \<open>PermissionError\<close> for a link whose target lies behind a
    directory that may not be searched.

  A listing that \<^verbatim>\<open>os.scandir\<close> has opened yields all its entries.
\<close>

datatype os_error = FileNotFoundError | NotADirectoryError | PermissionError | OSError_ELOOP

datatype node =
    Absent
  | RegularFile
  | Special
  | Directory bool "(string \<times> node) list"
  | Symlink node
  | UnresolvedLink os_error

text \<open>
  \<^verbatim>\<open>os.scandir(path)\<close> follows symbolic links. It raises an \<^verbatim>\<open>OSError\<close>
  when the path does not exist, is not a directory, may not be listed or cannot be
  resolved.
\<close>

fun scandir :: "node \<Rightarrow> os_error + (string \<times> node) list" where
  "scandir Absent = Inl FileNotFoundError"
| "scandir RegularFile = Inl NotADirectoryError"
| "scandir Special = Inl NotADirectoryError"
| "scandir (Directory readable entries) =
     (if readable then Inr entries else Inl PermissionError)"
| "scandir (Symlink target) = scandir target"
| "scandir (UnresolvedLink error) = Inl error"

text \<open>
  The methods of \<^verbatim>\<open>os.DirEntry\<close>, with their default
  \<^verbatim>\<open>follow_symlinks=True\<close>: \<^verbatim>\<open>is_file()\<close> holds of a file and of a link
  to a file, \<^verbatim>\<open>is_dir()\<close> of a directory and of a link to a directory. Both
  catch \<^verbatim>\<open>FileNotFoundError\<close> and return \<^verbatim>\<open>False\<close> for an entry, or the
  target of a link, that does not exist; any other \<^verbatim>\<open>OSError\<close> of following a
  link is raised to the caller. \<^verbatim>\<open>os.path.islink\<close> holds of a symbolic link.
\<close>

fun is_file :: "node \<Rightarrow> os_error + bool" where
  "is_file RegularFile = Inr True"
| "is_file (Symlink target) = is_file target"
| "is_file (UnresolvedLink error) =
     (if error = FileNotFoundError then Inr False else Inl error)"
| "is_file _ = Inr False"

fun is_dir :: "node \<Rightarrow> os_error + bool" where
  "is_dir (Directory readable entries) = Inr True"
| "is_dir (Symlink target) = is_dir target"
| "is_dir (UnresolvedLink error) =
     (if error = FileNotFoundError then Inr False else Inl error)"
| "is_dir _ = Inr False"

fun islink :: "node \<Rightarrow> bool" where
  "islink (Symlink target) = True"
| "islink (UnresolvedLink error) = True"
| "islink _ = False"

text \<open>
  Whether something exists at a path. A dangling link counts for nothing; a link
  that cannot be followed for another reason is there.
\<close>

fun path_exists :: "node \<Rightarrow> bool" where
  "path_exists Absent = False"
| "path_exists (Symlink target) = path_exists target"
| "path_exists (UnresolvedLink error) = (error \<noteq> FileNotFoundError)"
| "path_exists _ = True"

subsection \<open>\<^verbatim>\<open>os.walk\<close>\<close>

text \<open>
  \<^verbatim>\<open>os.walk(top)\<close> with its defaults (\<^verbatim>\<open>topdown=True\<close>,
  \<^verbatim>\<open>onerror=None\<close>, \<^verbatim>\<open>followlinks=False\<close>) lists \<^verbatim>\<open>top\<close> with
  \<^verbatim>\<open>scandir\<close>. When that raises an \<^verbatim>\<open>OSError\<close> the error is dropped and
  nothing is yielded for \<^verbatim>\<open>top\<close>. Otherwise it yields
  \<^verbatim>\<open>(top, dirs, nondirs)\<close> and then walks, in listing order, every entry for
  which \<^verbatim>\<open>is_dir()\<close> holds and \<^verbatim>\<open>islink\<close> does not. The caller keeps the
  first component of each triple only, so \<open>os_walk\<close> returns these.
  \<^verbatim>\<open>
  try:
      is_dir = entry.is_dir()
  except OSError:
      is_dir = False
  \<close>
\<close>

definition is_dir_or_false :: "node \<Rightarrow> bool" where
  "is_dir_or_false entry = (case is_dir entry of Inl error \<Rightarrow> False | Inr b \<Rightarrow> b)"

definition walked_into :: "node \<Rightarrow> bool" where
  "walked_into entry = (is_dir_or_false entry \<and> \<not> islink entry)"

function os_walk :: "node \<Rightarrow> node list" where
  "os_walk top_dir =
     (case scandir top_dir of
        Inl error \<Rightarrow> []
      | Inr entries \<Rightarrow>
          top_dir # concat (map (\<lambda>(name, child).
                              if walked_into child then os_walk child else [])
                            entries))"
  by pat_completeness auto
termination
proof (relation "measure size")
  show "wf (measure size)" by simp
next
  fix top_dir :: node and entries :: "(string \<times> node) list" and entry name child
  assume listed: "scandir top_dir = Inr entries"
    and entry: "entry \<in> set entries" "(name, child) = entry"
  have in_dir: "(name, child) \<in> set es \<Longrightarrow> size child < Suc (size_list (size_prod (\<lambda>_. 0) size) es)"
    for es :: "(string \<times> node) list"
    by (induction es) auto
  have "scandir t = Inr entries \<Longrightarrow> size child < size t" for t
  proof (induction t)
    case (Directory readable es)
    then have "(name, child) \<in> set es"
      using entry by (simp split: if_splits)
    then show ?case
      using in_dir by simp
  qed auto
  then show "(child, top_dir) \<in> measure size"
    using listed by simp
qed

declare os_walk.simps [simp del]

subsection \<open>\<^verbatim>\<open>count_files_with_details\<close>\<close>

text \<open>
  What can be observed of a run of the counting pass, in order: the call of
  \<^verbatim>\<open>os.scandir\<close> for the directory with index \<open>i\<close> of
  \<^verbatim>\<open>enumerate(all_dirs, start=1)\<close>, each entry that the loop over the listing
  takes up (by its name), and each call of \<^verbatim>\<open>progress_bar(current, total)\<close>.
  The two messages that the function prints are left out.
\<close>

datatype event = Scandir int | Entry string | Progress int int

text \<open>
  The state of the scan: the three counters that the function returns, and the
  events so far. \<^verbatim>\<open>category_counts\<close> is a \<^verbatim>\<open>defaultdict(int)\<close>: an
  association list in insertion order with one pair for each key.
\<close>

record scan_state =
  total_files :: int
  folder_count :: int
  category_counts :: "(string \<times> int) list"
  events :: "event list"

definition log_event :: "event \<Rightarrow> scan_state \<Rightarrow> scan_state" where
  "log_event e st = st\<lparr>events := events st @ [e]\<rparr>"

text \<open>The calls of \<^verbatim>\<open>progress_bar\<close> among the events, with their arguments.\<close>

fun progress_of :: "event list \<Rightarrow> (int \<times> int) list" where
  "progress_of [] = []"
| "progress_of (Progress current total_dirs # es) = (current, total_dirs) # progress_of es"
| "progress_of (e # es) = progress_of es"

definition progress_calls :: "scan_state \<Rightarrow> (int \<times> int) list" where
  "progress_calls st = progress_of (events st)"

text \<open>
  \<^verbatim>\<open>category_counts[category] += 1\<close>: a key that is missing is inserted, at the
  end, with the default \<open>0\<close> before the addition.
\<close>

fun increment :: "string \<Rightarrow> (string \<times> int) list \<Rightarrow> (string \<times> int) list" where
  "increment category [] = [(category, 0 + 1)]"
| "increment category ((k, v) # rest) =
     (if k = category then (k, v + 1) # rest else (k, v) # increment category rest)"

text \<open>The count that the dictionary holds for a category, \<open>0\<close> for a missing key.\<close>

definition count_of :: "string \<Rightarrow> (string \<times> int) list \<Rightarrow> int" where
  "count_of category counts = (case map_of counts category of None \<Rightarrow> 0 | Some v \<Rightarrow> v)"

definition progress_bar :: "int \<Rightarrow> int \<Rightarrow> scan_state \<Rightarrow> scan_state" where
  "progress_bar current total_dirs st = log_event (Progress current total_dirs) st"

text \<open>
  \<^verbatim>\<open>
  for entry in entries:
      if entry.is_file():
          total_files += 1
          category = categorize_file(entry.name)
          category_counts[category] += 1
      elif entry.is_dir():
          folder_count += 1
  \<close>
  The loop ends normally (\<open>Inr\<close>, with the state reached) or with the error that
  \<^verbatim>\<open>is_file()\<close> or \<^verbatim>\<open>is_dir()\<close> raises (\<open>Inl\<close>, with the error and the
  state reached: the counters keep what was added before the error).
\<close>

fun count_entries ::
  "os_name \<Rightarrow> (string \<times> node) list \<Rightarrow> scan_state \<Rightarrow> (os_error \<times> scan_state) + scan_state" where
  "count_entries os [] st = Inr st"
| "count_entries os ((name, entry) # entries) st =
     (let st = log_event (Entry name) st
      in case is_file entry of
           Inl error \<Rightarrow> Inl (error, st)
         | Inr True \<Rightarrow>
             count_entries os entries
               (st\<lparr>total_files := total_files st + 1,
                   category_counts := increment (categorize_file os name) (category_counts st)\<rparr>)
         | Inr False \<Rightarrow>
             (case is_dir entry of
                Inl error \<Rightarrow> Inl (error, st)
              | Inr True \<Rightarrow> count_entries os entries (st\<lparr>folder_count := folder_count st + 1\<rparr>)
              | Inr False \<Rightarrow> count_entries os entries st))"

text \<open>
  The body of the \<^verbatim>\<open>try\<close> statement for one directory:
  \<^verbatim>\<open>
  entries = os.scandir(root)
  for entry in entries:
      ...
  \<close>
\<close>

definition try_body ::
  "os_name \<Rightarrow> node \<Rightarrow> scan_state \<Rightarrow> (os_error \<times> scan_state) + scan_state" where
  "try_body os root st =
     (case scandir root of
        Inl error \<Rightarrow> Inl (error, st)
      | Inr entries \<Rightarrow> count_entries os entries st)"

text \<open>
  \<^verbatim>\<open>
  for i, root in enumerate(all_dirs, start=1):
      try:
          ...
      except PermissionError:
          pass
      progress_bar(i, total_dirs)
  \<close>
  A \<^verbatim>\<open>PermissionError\<close> raised in the body is caught, whether
  \<^verbatim>\<open>os.scandir\<close> raised it or the loop over the entries: the rest of the
  directory is skipped and the pass goes on. Any other error leaves the function.
\<close>

fun count_dirs :: "os_name \<Rightarrow> node list \<Rightarrow> int \<Rightarrow> int \<Rightarrow> scan_state \<Rightarrow> os_error + scan_state" where
  "count_dirs os [] i total_dirs st = Inr st"
| "count_dirs os (root # all_dirs) i total_dirs st =
     (case try_body os root (log_event (Scandir i) st) of
        Inr st' \<Rightarrow> count_dirs os all_dirs (i + 1) total_dirs (progress_bar i total_dirs st')
      | Inl (error, st') \<Rightarrow>
          (if error = PermissionError
           then count_dirs os all_dirs (i + 1) total_dirs (progress_bar i total_dirs st')
           else Inl error))"

definition initial_state :: scan_state where
  "initial_state =
     \<lparr>total_files = 0, folder_count = 0, category_counts = [], events = []\<rparr>"

definition count_files_with_details :: "os_name \<Rightarrow> node \<Rightarrow> os_error + scan_state" where
  "count_files_with_details os path =
     (let all_dirs = os_walk path;
          total_dirs = int (length all_dirs)
      in count_dirs os all_dirs 1 total_dirs initial_state)"

subsection \<open>What a scan should count\<close>

text \<open>
  The counts the specification asks for, by recursion over the tree: the entries of
  every directory that can be listed, from the root down through the directories that
  can be listed; a directory whose listing is denied contributes nothing. \<open>weight\<close>
  says what an entry counts for.
\<close>

function tally :: "(string \<Rightarrow> node \<Rightarrow> int) \<Rightarrow> node \<Rightarrow> int" where
  "tally weight dir =
     (case scandir dir of
        Inl error \<Rightarrow> 0
      | Inr entries \<Rightarrow>
          sum_list (map (\<lambda>(name, child).
                      weight name child +
                      (if walked_into child then tally weight child else 0))
                    entries))"
  by pat_completeness auto
termination
proof (relation "measure (\<lambda>(weight, dir). size dir)")
  show "wf (measure (\<lambda>(weight :: string \<Rightarrow> node \<Rightarrow> int, dir :: node). size dir))" by simp
next
  fix weight :: "string \<Rightarrow> node \<Rightarrow> int" and dir :: node
    and entries :: "(string \<times> node) list" and entry name child
  assume listed: "scandir dir = Inr entries"
    and entry: "entry \<in> set entries" "(name, child) = entry"
  have in_dir: "(name, child) \<in> set es \<Longrightarrow> size child < Suc (size_list (size_prod (\<lambda>_. 0) size) es)"
    for es :: "(string \<times> node) list"
    by (induction es) auto
  have "scandir t = Inr entries \<Longrightarrow> size child < size t" for t
  proof (induction t)
    case (Directory readable es)
    then have "(name, child) \<in> set es"
      using entry by (simp split: if_splits)
    then show ?case
      using in_dir by simp
  qed auto
  then show "((weight, child), (weight, dir)) \<in> measure (\<lambda>(weight, dir). size dir)"
    using listed by simp
qed

declare tally.simps [simp del]

definition file_weight :: "string \<Rightarrow> node \<Rightarrow> int" where
  "file_weight name entry = (if is_file entry = Inr True then 1 else 0)"

definition folder_weight :: "string \<Rightarrow> node \<Rightarrow> int" where
  "folder_weight name entry = (if is_dir entry = Inr True then 1 else 0)"

definition category_weight :: "os_name \<Rightarrow> string \<Rightarrow> string \<Rightarrow> node \<Rightarrow> int" where
  "category_weight os category name entry =
     (if is_file entry = Inr True \<and> categorize_file os name = category then 1 else 0)"

definition dir_link_weight :: "string \<Rightarrow> node \<Rightarrow> int" where
  "dir_link_weight name entry = (if is_dir entry = Inr True \<and> islink entry then 1 else 0)"

text \<open>
  The error, if any, that the loop over a listing meets at an entry: that of
  \<^verbatim>\<open>is_file()\<close>, or that of \<^verbatim>\<open>is_dir()\<close> when \<^verbatim>\<open>is_file()\<close> is false.
\<close>

definition entry_error :: "node \<Rightarrow> os_error option" where
  "entry_error entry =
     (case is_file entry of
        Inl error \<Rightarrow> Some error
      | Inr True \<Rightarrow> None
      | Inr False \<Rightarrow> (case is_dir entry of Inl error \<Rightarrow> Some error | Inr b \<Rightarrow> None))"

text \<open>
  A tree is fully accessible when its root and every directory below it can be
  listed, and no entry is refused for want of permission.
\<close>

function fully_accessible :: "node \<Rightarrow> bool" where
  "fully_accessible dir =
     (case scandir dir of
        Inl error \<Rightarrow> False
      | Inr entries \<Rightarrow>
          list_all (\<lambda>(name, child).
                      entry_error child \<noteq> Some PermissionError \<and>
                      (walked_into child \<longrightarrow> fully_accessible child))
                   entries)"
  by pat_completeness auto
termination
proof (relation "measure size")
  show "wf (measure size)" by simp
next
  fix dir :: node and entries :: "(string \<times> node) list" and entry name child
  assume listed: "scandir dir = Inr entries"
    and entry: "entry \<in> set entries" "(name, child) = entry"
  have in_dir: "(name, child) \<in> set es \<Longrightarrow> size child < Suc (size_list (size_prod (\<lambda>_. 0) size) es)"
    for es :: "(string \<times> node) list"
    by (induction es) auto
  have "scandir t = Inr entries \<Longrightarrow> size child < size t" for t
  proof (induction t)
    case (Directory readable es)
    then have "(name, child) \<in> set es"
      using entry by (simp split: if_splits)
    then show ?case
      using in_dir by simp
  qed auto
  then show "(child, dir) \<in> measure size"
    using listed by simp
qed

declare fully_accessible.simps [simp del]

text \<open>
  The same tree, with the entries of every directory that cannot be listed taken
  away.
\<close>

fun without_denied_contents :: "node \<Rightarrow> node" where
  "without_denied_contents (Directory readable entries) =
     (if readable
      then Directory True (map (\<lambda>(name, child). (name, without_denied_contents child)) entries)
      else Directory False [])"
| "without_denied_contents (Symlink target) = Symlink (without_denied_contents target)"
| "without_denied_contents Absent = Absent"
| "without_denied_contents RegularFile = RegularFile"
| "without_denied_contents Special = Special"
| "without_denied_contents (UnresolvedLink error) = UnresolvedLink error"

text \<open>
  The entries that the counting pass sees in a directory: its listing, and nothing
  when the listing fails.
\<close>

definition listing :: "node \<Rightarrow> (string \<times> node) list" where
  "listing dir = (case scandir dir of Inl error \<Rightarrow> [] | Inr entries \<Rightarrow> entries)"

text \<open>The sum of the weights of a list of entries.\<close>

definition weigh :: "(string \<Rightarrow> node \<Rightarrow> int) \<Rightarrow> (string \<times> node) list \<Rightarrow> int" where
  "weigh weight entries = sum_list (map (\<lambda>(name, entry). weight name entry) entries)"

text \<open>
  All entries of the directories that the discovery pass finds, and the trees in
  which none of them raises an error when the loop takes it up.
\<close>

definition walked_entries :: "node \<Rightarrow> (string \<times> node) list" where
  "walked_entries path = concat (map listing (os_walk path))"

definition no_entry_raises :: "node \<Rightarrow> bool" where
  "no_entry_raises path = list_all (\<lambda>(name, entry). entry_error entry = None) (walked_entries path)"




text \<open>The state in which a run of the body of the \<^verbatim>\<open>try\<close> statement ends.\<close>

definition reached :: "(os_error \<times> scan_state) + scan_state \<Rightarrow> scan_state" where
  "reached outcome = (case outcome of Inl (error, st) \<Rightarrow> st | Inr st \<Rightarrow> st)"

section \<open>Properties of the counting loops\<close>

lemma is_file_not_dir: "is_file n = Inr True \<Longrightarrow> is_dir n = Inr False"
  by (induction n) (auto split: if_splits)

lemma is_dir_not_file: "is_dir n = Inr True \<Longrightarrow> is_file n = Inr False"
  by (induction n) (auto split: if_splits)

lemma sum_increment: "sum_list (map snd (increment k cc)) = sum_list (map snd cc) + 1"
  by (induction cc) auto

lemma count_of_increment:
  "count_of c (increment k cc) = count_of c cc + (if c = k then 1 else 0)"
  by (induction cc) (auto simp: count_of_def)

lemma positive_increment:
  "list_all (\<lambda>p. 0 < snd p) cc \<Longrightarrow> list_all (\<lambda>p. 0 < snd p) (increment k cc)"
  by (induction cc) auto

lemma map_of_positive:
  assumes "list_all (\<lambda>p. 0 < snd p) cc"
  shows "map_of cc k = (if count_of k cc = 0 then None else Some (count_of k cc))"
proof (cases "map_of cc k")
  case None
  then show ?thesis by (simp add: count_of_def)
next
  case (Some v)
  then have "(k, v) \<in> set cc" by (rule map_of_SomeD)
  then have "0 < v" using assms by (auto simp: list_all_iff)
  then show ?thesis using Some by (simp add: count_of_def)
qed

lemma weigh_Nil: "weigh w [] = 0"
  by (simp add: weigh_def)

lemma weigh_Cons: "weigh w ((n, c) # es) = w n c + weigh w es"
  by (simp add: weigh_def)



text \<open>One step of the loop over a listing, by what the entry is.\<close>

lemma count_entries_step:
  "count_entries os ((name, entry) # entries) st =
     (case entry_error entry of
        Some error \<Rightarrow> Inl (error, log_event (Entry name) st)
      | None \<Rightarrow>
          count_entries os entries
            (if is_file entry = Inr True then
               (log_event (Entry name) st)
                 \<lparr>total_files := total_files (log_event (Entry name) st) + 1,
                  category_counts := increment (categorize_file os name)
                     (category_counts (log_event (Entry name) st))\<rparr>
             else if is_dir entry = Inr True then
               (log_event (Entry name) st)
                 \<lparr>folder_count := folder_count (log_event (Entry name) st) + 1\<rparr>
             else log_event (Entry name) st))"
  by (auto simp: entry_error_def Let_def split: sum.splits bool.splits)

lemma count_entries_files:
  "count_entries os es st = Inr st' \<Longrightarrow> total_files st' = total_files st + weigh file_weight es"
proof (induction es arbitrary: st)
  case Nil
  then show ?case by (simp add: weigh_Nil)
next
  case (Cons e es)
  obtain name entry where e: "e = (name, entry)" by (cases e)
  from Cons.prems have ok: "entry_error entry = None"
    unfolding e count_entries_step by (cases "entry_error entry") auto
  from Cons.prems show ?case
    unfolding e count_entries_step ok
    by (auto dest!: Cons.IH simp: weigh_Cons file_weight_def log_event_def split: if_splits)
qed

lemma count_entries_folders:
  "count_entries os es st = Inr st' \<Longrightarrow> folder_count st' = folder_count st + weigh folder_weight es"
proof (induction es arbitrary: st)
  case Nil
  then show ?case by (simp add: weigh_Nil)
next
  case (Cons e es)
  obtain name entry where e: "e = (name, entry)" by (cases e)
  from Cons.prems have ok: "entry_error entry = None"
    unfolding e count_entries_step by (cases "entry_error entry") auto
  from Cons.prems show ?case
    unfolding e count_entries_step ok
    by (auto dest!: Cons.IH simp: weigh_Cons folder_weight_def log_event_def is_file_not_dir
        split: if_splits)
qed

lemma count_entries_category:
  "count_entries os es st = Inr st' \<Longrightarrow>
   count_of cat (category_counts st') =
     count_of cat (category_counts st) + weigh (category_weight os cat) es"
proof (induction es arbitrary: st)
  case Nil
  then show ?case by (simp add: weigh_Nil)
next
  case (Cons e es)
  obtain name entry where e: "e = (name, entry)" by (cases e)
  from Cons.prems have ok: "entry_error entry = None"
    unfolding e count_entries_step by (cases "entry_error entry") auto
  from Cons.prems show ?case
    unfolding e count_entries_step ok
    by (auto dest!: Cons.IH simp: weigh_Cons category_weight_def log_event_def count_of_increment
        split: if_splits)
qed


lemma count_entries_balance:
  "sum_list (map snd (category_counts st)) = total_files st \<Longrightarrow>
   sum_list (map snd (category_counts (reached (count_entries os es st)))) =
     total_files (reached (count_entries os es st))"
proof (induction es arbitrary: st)
  case Nil
  then show ?case by (simp add: reached_def)
next
  case (Cons e es)
  obtain name entry where e: "e = (name, entry)" by (cases e)
  show ?case
  proof (cases "entry_error entry")
    case None
    then show ?thesis
      unfolding e count_entries_step using Cons.prems
      by (auto intro!: Cons.IH simp: log_event_def sum_increment)
  next
    case (Some error)
    then show ?thesis
      unfolding e count_entries_step using Cons.prems
      by (simp add: reached_def log_event_def)
  qed
qed

lemma count_entries_positive:
  "list_all (\<lambda>p. 0 < snd p) (category_counts st) \<Longrightarrow>
   list_all (\<lambda>p. 0 < snd p) (category_counts (reached (count_entries os es st)))"
proof (induction es arbitrary: st)
  case Nil
  then show ?case by (simp add: reached_def)
next
  case (Cons e es)
  obtain name entry where e: "e = (name, entry)" by (cases e)
  show ?case
  proof (cases "entry_error entry")
    case None
    then show ?thesis
      unfolding e count_entries_step using Cons.prems
      by (auto intro!: Cons.IH simp: log_event_def positive_increment)
  next
    case (Some error)
    then show ?thesis
      unfolding e count_entries_step using Cons.prems
      by (simp add: reached_def log_event_def)
  qed
qed

lemma count_entries_error:
  "count_entries os es st = Inl (error, st') \<Longrightarrow>
   \<exists>(name, entry) \<in> set es. entry_error entry = Some error"
proof (induction es arbitrary: st)
  case Nil
  then show ?case by simp
next
  case (Cons e es)
  obtain name entry where e: "e = (name, entry)" by (cases e)
  show ?case
  proof (cases "entry_error entry")
    case None
    with Cons.prems show ?thesis
      unfolding e count_entries_step by (auto dest!: Cons.IH)
  next
    case (Some error')
    with Cons.prems show ?thesis
      unfolding e count_entries_step by auto
  qed
qed

lemma count_entries_outcome:
  "(\<exists>st'. count_entries os es st = Inr st') \<or>
   (\<exists>error st'. count_entries os es st = Inl (error, st'))"
  by (cases "count_entries os es st") auto


lemma count_dirs_step:
  "count_dirs os (root # all_dirs) i total_dirs st =
     (case try_body os root (log_event (Scandir i) st) of
        Inr st' \<Rightarrow> count_dirs os all_dirs (i + 1) total_dirs (progress_bar i total_dirs st')
      | Inl (error, st') \<Rightarrow>
          (if error = PermissionError
           then count_dirs os all_dirs (i + 1) total_dirs (progress_bar i total_dirs st')
           else Inl error))"
  by simp

lemma count_dirs_round:
  assumes "count_dirs os (root # all_dirs) i total_dirs st = Inr st'"
  shows "count_dirs os all_dirs (i + 1) total_dirs
           (progress_bar i total_dirs (reached (try_body os root (log_event (Scandir i) st)))) = Inr st'"
  using assms unfolding count_dirs_step
  by (cases "try_body os root (log_event (Scandir i) st)")
     (auto simp: reached_def split: if_splits)

lemma try_body_full:
  assumes "count_dirs os (root # all_dirs) i total_dirs st = Inr st'"
    and "list_all (\<lambda>(name, entry). entry_error entry \<noteq> Some PermissionError) (listing root)"
  shows "(\<exists>st1. scandir root = Inr (listing root) \<and>
            count_entries os (listing root) (log_event (Scandir i) st) = Inr st1 \<and>
            reached (try_body os root (log_event (Scandir i) st)) = st1) \<or>
         (listing root = [] \<and>
            reached (try_body os root (log_event (Scandir i) st)) = log_event (Scandir i) st)"
proof (cases "scandir root")
  case (Inl error)
  then show ?thesis
    by (simp add: try_body_def listing_def reached_def)
next
  case (Inr entries)
  then have entries: "listing root = entries"
    by (simp add: listing_def)
  show ?thesis
  proof (cases "count_entries os entries (log_event (Scandir i) st)")
    case (Inr st1)
    then show ?thesis
      using \<open>scandir root = Inr entries\<close> by (simp add: try_body_def entries reached_def)
  next
    case (Inl failure)
    obtain error st1 where failure: "failure = (error, st1)" by (cases failure)
    from Inl failure have "\<exists>(name, entry) \<in> set entries. entry_error entry = Some error"
      by (auto dest: count_entries_error)
    with assms(2) have "error \<noteq> PermissionError"
      by (auto simp: entries list_all_iff)
    with assms(1) Inl failure \<open>scandir root = Inr entries\<close> show ?thesis
      unfolding count_dirs_step by (simp add: try_body_def)
  qed
qed

lemma count_dirs_additive:
  assumes entries: "\<And>es st st'. count_entries os es st = Inr st' \<Longrightarrow> f st' = f st + g es"
    and logged: "\<And>e st. f (log_event e st) = f st"
    and empty: "g [] = 0"
  shows "count_dirs os dirs i total_dirs st = Inr st' \<Longrightarrow>
         \<forall>d \<in> set dirs. list_all (\<lambda>(name, entry). entry_error entry \<noteq> Some PermissionError) (listing d) \<Longrightarrow>
         f st' = (f st :: int) + sum_list (map (\<lambda>d. g (listing d)) dirs)"
proof (induction dirs arbitrary: i st)
  case Nil
  then show ?case by simp
next
  case (Cons d dirs)
  let ?st1 = "reached (try_body os d (log_event (Scandir i) st))"
  have rest: "f st' = f (progress_bar i total_dirs ?st1) + sum_list (map (\<lambda>d. g (listing d)) dirs)"
    using Cons.IH [OF count_dirs_round [OF Cons.prems(1)]] Cons.prems(2) by simp
  have "f ?st1 = f st + g (listing d)"
    using try_body_full [OF Cons.prems(1)] Cons.prems(2)
    by (auto simp: logged empty dest: entries)
  with rest show ?case
    by (simp add: progress_bar_def logged)
qed

lemma count_dirs_invariant:
  assumes entries: "\<And>es st. P st \<Longrightarrow> P (reached (count_entries os es st))"
    and logged: "\<And>e st. P st \<Longrightarrow> P (log_event e st)"
  shows "count_dirs os dirs i total_dirs st = Inr st' \<Longrightarrow> P st \<Longrightarrow> P st'"
proof (induction dirs arbitrary: i st)
  case Nil
  then show ?case by simp
next
  case (Cons d dirs)
  let ?st1 = "reached (try_body os d (log_event (Scandir i) st))"
  have "P ?st1"
    using Cons.prems(2)
    by (cases "scandir d") (simp_all add: try_body_def reached_def [of "Inl _"] logged entries)
  then have "P (progress_bar i total_dirs ?st1)"
    by (simp add: progress_bar_def logged)
  with Cons.IH [OF count_dirs_round [OF Cons.prems(1)]] show ?case .
qed


text \<open>
  The counting pass on its own, over any list of directories: it returns unless a
  listing or an entry raises an error other than \<^verbatim>\<open>PermissionError\<close>.
\<close>

lemma count_dirs_returns:
  "\<forall>d \<in> set dirs. list_all (\<lambda>(name, entry).
       entry_error entry = None \<or> entry_error entry = Some PermissionError) (listing d) \<Longrightarrow>
   \<forall>d \<in> set dirs. scandir d = Inl PermissionError \<or> (\<exists>es. scandir d = Inr es) \<Longrightarrow>
   \<exists>st'. count_dirs os dirs i total_dirs st = Inr st'"
proof (induction dirs arbitrary: i st)
  case Nil
  then show ?case by simp
next
  case (Cons d dirs)
  have rest: "\<exists>st'. count_dirs os dirs (i + 1) total_dirs st1 = Inr st'" for st1
    using Cons by simp
  show ?case
  proof (cases "try_body os d (log_event (Scandir i) st)")
    case (Inr st1)
    then show ?thesis
      unfolding count_dirs_step using rest by simp
  next
    case (Inl failure)
    obtain error st1 where failure: "failure = (error, st1)" by (cases failure)
    have "error = PermissionError"
    proof (cases "scandir d")
      case (Inl e)
      with Cons.prems(2) \<open>try_body os d (log_event (Scandir i) st) = Inl failure\<close> failure
      show ?thesis by (auto simp: try_body_def)
    next
      case (Inr es)
      with \<open>try_body os d (log_event (Scandir i) st) = Inl failure\<close> failure
      have "\<exists>(name, entry) \<in> set es. entry_error entry = Some error"
        by (auto simp: try_body_def dest: count_entries_error)
      moreover have "listing d = es"
        using Inr by (simp add: listing_def)
      ultimately show ?thesis
        using Cons.prems(1) by (auto simp: list_all_iff)
    qed
    with Inl failure show ?thesis
      unfolding count_dirs_step using rest by simp
  qed
qed


lemma os_walk_listable:
  "d \<in> set (os_walk root) \<Longrightarrow> \<exists>es. scandir d = Inr es"
proof (induction root rule: os_walk.induct)
  case (1 top_dir)
  show ?case
  proof (cases "scandir top_dir")
    case (Inl e)
    with "1.prems" show ?thesis by (simp add: os_walk.simps)
  next
    case (Inr es)
    with "1.prems" consider "d = top_dir"
      | n c where "(n, c) \<in> set es" "walked_into c" "d \<in> set (os_walk c)"
      by (subst (asm) os_walk.simps) (auto split: if_splits)
    then show ?thesis
    proof cases
      case 1
      then show ?thesis using Inr by simp
    next
      case 2
      then show ?thesis using "1.IH" [OF Inr, of "(n, c)" n c] by simp
    qed
  qed
qed

lemma sum_list_concat_map:
  "sum_list (map h (concat (map f xs))) = sum_list (map (\<lambda>x. sum_list (map h (f x))) xs)"
  by (induction xs) auto

lemma os_walk_tally:
  "sum_list (map (\<lambda>d. weigh w (listing d)) (os_walk root)) = tally w root"
proof (induction root rule: os_walk.induct)
  case (1 top_dir)
  show ?case
  proof (cases "scandir top_dir")
    case (Inl e)
    then show ?thesis by (simp add: os_walk.simps tally.simps)
  next
    case (Inr es)
    let ?sub = "\<lambda>(name, child). if walked_into child then os_walk child else []"
    have below: "sum_list (map (\<lambda>d. weigh w (listing d)) (?sub e)) =
        (case e of (name, child) \<Rightarrow> if walked_into child then tally w child else 0)"
      if "e \<in> set es" for e
      using "1.IH" [OF Inr that] by (cases e) auto
    have "sum_list (map (\<lambda>d. weigh w (listing d)) (os_walk top_dir)) =
        weigh w es + sum_list (map (\<lambda>e. sum_list (map (\<lambda>d. weigh w (listing d)) (?sub e))) es)"
      by (subst os_walk.simps) (simp add: Inr listing_def sum_list_concat_map)
    also have "sum_list (map (\<lambda>e. sum_list (map (\<lambda>d. weigh w (listing d)) (?sub e))) es) =
        sum_list (map (\<lambda>(name, child). if walked_into child then tally w child else 0) es)"
      by (rule arg_cong [where f = sum_list], rule map_cong) (simp_all add: below)
    also have "weigh w es + \<dots> = tally w top_dir"
      by (subst tally.simps) (simp add: Inr weigh_def sum_list_addf case_prod_unfold)
    finally show ?thesis .
  qed
qed

lemma walked_entries_all:
  "list_all P (walked_entries path) \<longleftrightarrow> (\<forall>d \<in> set (os_walk path). list_all P (listing d))"
  by (auto simp: walked_entries_def list_all_iff)

section \<open>Properties of the categorisation\<close>

lemma first_category_label:
  "first_category table ext \<in> insert ''Other'' (set (map fst table))"
  by (induction table ext rule: first_category.induct) auto

lemma first_category_unknown:
  "ext \<notin> \<Union> (set (map snd table)) \<Longrightarrow> first_category table ext = ''Other''"
  by (induction table ext rule: first_category.induct) auto

lemma empty_not_known: "[] \<notin> known_extensions"
  by (simp add: known_extensions_def FILE_CATEGORIES_def)

lemma rfind_aux_absent: "c \<notin> set xs \<Longrightarrow> rfind_aux c xs i found = found"
  by (induction xs arbitrary: i found) auto

lemma rfind_absent: "c \<notin> set p \<Longrightarrow> rfind p c = - 1"
  by (simp add: rfind_def rfind_aux_absent)

lemma rfind_leading: "c \<notin> set s \<Longrightarrow> rfind (c # s) c = 0"
  by (simp add: rfind_def rfind_aux_absent)

lemma splitext_dotfile:
  assumes "extsep \<notin> set s" and "sep os \<notin> set (extsep # s)"
    and "\<forall>a. altsep os = Some a \<longrightarrow> a \<notin> set (extsep # s)"
  shows "splitext os (extsep # s) = (extsep # s, [])"
proof -
  have dot: "rfind (extsep # s) extsep = 0"
    using assms(1) by (rule rfind_leading)
  have sp: "rfind (extsep # s) (sep os) = - 1"
    using assms(2) by (rule rfind_absent)
  have alt: "(case altsep os of None \<Rightarrow> - 1 | Some a \<Rightarrow> max (- 1) (rfind (extsep # s) a)) = - 1"
    using assms(3) by (cases "altsep os") (simp_all add: rfind_absent)
  show ?thesis
    by (simp add: splitext_def splitext_generic_def Let_def dot sp alt)
qed

lemma known_extension_shape:
  "\<forall>ext \<in> known_extensions. \<exists>s. ext = extsep # s \<and> extsep \<notin> set s \<and>
      CHR ''/'' \<notin> set s \<and> CHR 0x5C \<notin> set s"
  by (simp add: known_extensions_def FILE_CATEGORIES_def extsep_def)

text \<open>
  Claim C4. A file name whose extension is \<^verbatim>\<open>.bat\<close> or \<^verbatim>\<open>.cmd\<close>, in any
  letter case (that is, whose extension as \<^verbatim>\<open>os.path.splitext\<close> gives it is one
  of the two after \<^verbatim>\<open>lower()\<close>), is categorised as \<^verbatim>\<open>Scripts\<close>: the
  categories of the table that hold the extension are \<^verbatim>\<open>Scripts\<close> and
  \<^verbatim>\<open>Applications\<close>, in this order, and the first one is returned.
\<close>

theorem bat_cmd_is_scripts:
  "lower (snd (splitext os name)) \<in> {''.bat'', ''.cmd''} \<Longrightarrow>
   categorize_file os name = ''Scripts'' \<and>
   map fst (filter (\<lambda>(category, extensions). lower (snd (splitext os name)) \<in> extensions)
              FILE_CATEGORIES) = [''Scripts'', ''Applications'']"
  by (auto simp: categorize_file_def FILE_CATEGORIES_def)

theorem bat_cmd_is_scripts_witness:
  "lower (snd (splitext Nt ''RUN.BaT'')) \<in> {''.bat'', ''.cmd''} \<and>
   categorize_file Nt ''RUN.BaT'' = ''Scripts''"
proof -
  have ext: "lower (snd (splitext Nt ''RUN.BaT'')) \<in> {''.bat'', ''.cmd''}"
    by code_simp
  from bat_cmd_is_scripts [OF ext] ext show ?thesis by simp
qed

text \<open>
  Claim C6. For every file name \<^verbatim>\<open>categorize_file\<close> returns one of the seven
  labels of the table or \<^verbatim>\<open>Other\<close>; it returns \<^verbatim>\<open>Other\<close> when the
  lower-cased extension is in no set of the table, and in particular when the name
  has no extension. It is a function of the platform and the name alone: it reads no
  state, changes none and raises no error.
\<close>

theorem categorize_file_label:
  "categorize_file os name \<in>
     {''Images'', ''Videos'', ''Audio'', ''Documents'', ''Scripts'', ''Archives'',
      ''Applications'', ''Other''} \<and>
   (lower (snd (splitext os name)) \<notin> known_extensions \<longrightarrow> categorize_file os name = ''Other'') \<and>
   (snd (splitext os name) = [] \<longrightarrow> categorize_file os name = ''Other'')"
proof (intro conjI impI)
  show "categorize_file os name \<in>
     {''Images'', ''Videos'', ''Audio'', ''Documents'', ''Scripts'', ''Archives'',
      ''Applications'', ''Other''}"
    using first_category_label [of FILE_CATEGORIES "lower (snd (splitext os name))"]
    by (simp add: categorize_file_def) (simp add: FILE_CATEGORIES_def)
next
  assume "lower (snd (splitext os name)) \<notin> known_extensions"
  then show "categorize_file os name = ''Other''"
    by (simp add: categorize_file_def known_extensions_def first_category_unknown)
next
  assume "snd (splitext os name) = []"
  then have "lower (snd (splitext os name)) \<notin> known_extensions"
    using empty_not_known by (simp add: lower_def)
  then show "categorize_file os name = ''Other''"
    by (simp add: categorize_file_def known_extensions_def first_category_unknown)
qed

theorem categorize_file_label_witness:
  "snd (splitext Posix ''notes.xyz'') \<noteq> [] \<and>
   lower (snd (splitext Posix ''notes.xyz'')) \<notin> known_extensions \<and>
   categorize_file Posix ''notes.xyz'' = ''Other'' \<and>
   snd (splitext Nt ''README'') = [] \<and>
   categorize_file Nt ''README'' = ''Other''"
proof -
  have ext: "lower (snd (splitext Posix ''notes.xyz'')) = ''.xyz''"
    by code_simp
  have unknown: "lower (snd (splitext Posix ''notes.xyz'')) \<notin> known_extensions"
    unfolding ext by (simp add: known_extensions_def FILE_CATEGORIES_def)
  have none: "snd (splitext Nt ''README'') = []"
    by code_simp
  have some: "snd (splitext Posix ''notes.xyz'') \<noteq> []"
    using ext by (auto simp: lower_def)
  from categorize_file_label [of Posix "''notes.xyz''"] categorize_file_label [of Nt "''README''"]
    unknown none some
  show ?thesis by simp
qed

text \<open>
  Claim C9. A file name that is itself one of the extensions of the table (a single
  leading dot and then the suffix, such as \<^verbatim>\<open>.jpg\<close> or \<^verbatim>\<open>.py\<close>) is
  categorised as \<^verbatim>\<open>Other\<close>: \<^verbatim>\<open>os.path.splitext\<close> skips leading dots, so
  the name has no extension.
\<close>

theorem dotfile_is_other:
  "\<forall>ext \<in> known_extensions. categorize_file os ext = ''Other''"
proof
  fix ext
  assume "ext \<in> known_extensions"
  with known_extension_shape obtain s
    where s: "ext = extsep # s" "extsep \<notin> set s" "CHR ''/'' \<notin> set s" "CHR 0x5C \<notin> set s"
    by blast
  have "splitext os (extsep # s) = (extsep # s, [])"
    using s by (intro splitext_dotfile) (cases os; simp add: sep_def altsep_def extsep_def)+
  then have "categorize_file os ext = first_category FILE_CATEGORIES []"
    by (simp add: categorize_file_def s(1) lower_def)
  then show "categorize_file os ext = ''Other''"
    using empty_not_known by (simp add: known_extensions_def first_category_unknown)
qed

theorem dotfile_is_other_witness:
  "''.jpg'' \<in> known_extensions \<and> categorize_file Nt ''.jpg'' = ''Other'' \<and>
   ''.py'' \<in> known_extensions \<and> categorize_file Posix ''.py'' = ''Other'' \<and>
   categorize_file Posix ''a.jpg'' = ''Images''"
proof -
  have known: "''.jpg'' \<in> known_extensions" "''.py'' \<in> known_extensions"
    by (simp_all add: known_extensions_def FILE_CATEGORIES_def)
  have other: "categorize_file Posix ''a.jpg'' = ''Images''"
    by code_simp
  from dotfile_is_other [of Nt] dotfile_is_other [of Posix] known other
  show ?thesis by blast
qed

section \<open>Properties of the scan\<close>

lemma scan_returns:
  assumes "list_all (\<lambda>(name, entry).
      entry_error entry = None \<or> entry_error entry = Some PermissionError) (walked_entries path)"
  shows "\<exists>r. count_files_with_details os path = Inr r"
  unfolding count_files_with_details_def Let_def
proof (rule count_dirs_returns)
  show "\<forall>d \<in> set (os_walk path). list_all (\<lambda>(name, entry).
      entry_error entry = None \<or> entry_error entry = Some PermissionError) (listing d)"
    using assms by (simp add: walked_entries_all)
  show "\<forall>d \<in> set (os_walk path). scandir d = Inl PermissionError \<or> (\<exists>es. scandir d = Inr es)"
    by (simp add: os_walk_listable)
qed

lemma scan_files:
  assumes "count_files_with_details os path = Inr r"
    and "list_all (\<lambda>(name, entry). entry_error entry \<noteq> Some PermissionError) (walked_entries path)"
  shows "total_files r = tally file_weight path"
proof -
  have "total_files r = total_files initial_state +
      sum_list (map (\<lambda>d. weigh file_weight (listing d)) (os_walk path))"
  proof (rule count_dirs_additive [where f = total_files and g = "weigh file_weight"])
    show "count_dirs os (os_walk path) 1 (int (length (os_walk path))) initial_state = Inr r"
      using assms(1) by (simp add: count_files_with_details_def Let_def)
    show "\<forall>d \<in> set (os_walk path).
        list_all (\<lambda>(name, entry). entry_error entry \<noteq> Some PermissionError) (listing d)"
      using assms(2) by (simp add: walked_entries_all)
  qed (simp_all add: count_entries_files log_event_def weigh_Nil)
  then show ?thesis
    by (simp add: os_walk_tally initial_state_def)
qed

lemma scan_folders:
  assumes "count_files_with_details os path = Inr r"
    and "list_all (\<lambda>(name, entry). entry_error entry \<noteq> Some PermissionError) (walked_entries path)"
  shows "folder_count r = tally folder_weight path"
proof -
  have "folder_count r = folder_count initial_state +
      sum_list (map (\<lambda>d. weigh folder_weight (listing d)) (os_walk path))"
  proof (rule count_dirs_additive [where f = folder_count and g = "weigh folder_weight"])
    show "count_dirs os (os_walk path) 1 (int (length (os_walk path))) initial_state = Inr r"
      using assms(1) by (simp add: count_files_with_details_def Let_def)
    show "\<forall>d \<in> set (os_walk path).
        list_all (\<lambda>(name, entry). entry_error entry \<noteq> Some PermissionError) (listing d)"
      using assms(2) by (simp add: walked_entries_all)
  qed (simp_all add: count_entries_folders log_event_def weigh_Nil)
  then show ?thesis
    by (simp add: os_walk_tally initial_state_def)
qed

lemma scan_category:
  assumes "count_files_with_details os path = Inr r"
    and "list_all (\<lambda>(name, entry). entry_error entry \<noteq> Some PermissionError) (walked_entries path)"
  shows "count_of category (category_counts r) = tally (category_weight os category) path"
proof -
  have "count_of category (category_counts r) = count_of category (category_counts initial_state) +
      sum_list (map (\<lambda>d. weigh (category_weight os category) (listing d)) (os_walk path))"
  proof (rule count_dirs_additive [where f = "\<lambda>st. count_of category (category_counts st)"
        and g = "weigh (category_weight os category)"])
    show "count_dirs os (os_walk path) 1 (int (length (os_walk path))) initial_state = Inr r"
      using assms(1) by (simp add: count_files_with_details_def Let_def)
    show "\<forall>d \<in> set (os_walk path).
        list_all (\<lambda>(name, entry). entry_error entry \<noteq> Some PermissionError) (listing d)"
      using assms(2) by (simp add: walked_entries_all)
  qed (simp_all add: count_entries_category log_event_def weigh_Nil)
  then show ?thesis
    by (simp add: os_walk_tally initial_state_def count_of_def)
qed

lemma scan_positive:
  assumes "count_files_with_details os path = Inr r"
  shows "list_all (\<lambda>p. 0 < snd p) (category_counts r)"
proof (rule count_dirs_invariant [where P = "\<lambda>st. list_all (\<lambda>p. 0 < snd p) (category_counts st)"])
  show "count_dirs os (os_walk path) 1 (int (length (os_walk path))) initial_state = Inr r"
    using assms by (simp add: count_files_with_details_def Let_def)
qed (simp_all add: count_entries_positive log_event_def initial_state_def)



lemma scan_unlistable:
  "scandir path = Inl e \<Longrightarrow> count_files_with_details os path = Inr initial_state"
  by (simp add: count_files_with_details_def os_walk.simps)

lemma missing_not_listable: "\<not> path_exists path \<Longrightarrow> scandir path = Inl FileNotFoundError"
  by (induction path) auto

lemma no_entry_raises_none_denied:
  "no_entry_raises path \<Longrightarrow>
   list_all (\<lambda>(name, entry). entry_error entry \<noteq> Some PermissionError) (walked_entries path)"
  by (auto simp: no_entry_raises_def list_all_iff)

lemma no_entry_raises_tolerated:
  "no_entry_raises path \<Longrightarrow>
   list_all (\<lambda>(name, entry). entry_error entry = None \<or> entry_error entry = Some PermissionError)
     (walked_entries path)"
  by (auto simp: no_entry_raises_def list_all_iff)

lemma wdc_is_file [simp]: "is_file (without_denied_contents n) = is_file n"
  by (induction n) auto

lemma wdc_is_dir [simp]: "is_dir (without_denied_contents n) = is_dir n"
  by (induction n) auto

lemma wdc_islink [simp]: "islink (without_denied_contents n) = islink n"
  by (cases n) auto

lemma wdc_walked_into [simp]: "walked_into (without_denied_contents n) = walked_into n"
  by (simp add: walked_into_def is_dir_or_false_def)







lemma fully_accessible_none_denied:
  "fully_accessible root \<Longrightarrow> d \<in> set (os_walk root) \<Longrightarrow>
   list_all (\<lambda>(name, entry). entry_error entry \<noteq> Some PermissionError) (listing d)"
proof (induction root rule: os_walk.induct)
  case (1 top_dir)
  show ?case
  proof (cases "scandir top_dir")
    case (Inl e)
    with "1.prems"(2) show ?thesis by (simp add: os_walk.simps)
  next
    case (Inr es)
    have below: "list_all (\<lambda>(name, child). entry_error child \<noteq> Some PermissionError \<and>
        (walked_into child \<longrightarrow> fully_accessible child)) es"
      using "1.prems"(1) by (subst (asm) fully_accessible.simps) (simp add: Inr)
    from "1.prems"(2) Inr consider "d = top_dir"
      | n c where "(n, c) \<in> set es" "walked_into c" "d \<in> set (os_walk c)"
      by (subst (asm) os_walk.simps) (auto split: if_splits)
    then show ?thesis
    proof cases
      case 1
      then show ?thesis
        using below by (auto simp: listing_def Inr list_all_iff)
    next
      case 2
      then have "fully_accessible c"
        using below by (auto simp: list_all_iff)
      with "1.IH" [OF Inr 2(1) refl 2(2)] 2(3) show ?thesis by simp
    qed
  qed
qed

lemma length_concat_map:
  "int (length (concat (map f xs))) = sum_list (map (\<lambda>x. int (length (f x))) xs)"
  by (induction xs) auto

lemma walk_count:
  "fully_accessible path \<Longrightarrow>
   int (length (os_walk path)) + tally dir_link_weight path = 1 + tally folder_weight path"
proof (induction path rule: os_walk.induct)
  case (1 top_dir)
  show ?case
  proof (cases "scandir top_dir")
    case (Inl e)
    with "1.prems" show ?thesis
      by (subst (asm) fully_accessible.simps) simp
  next
    case (Inr es)
    let ?sub = "\<lambda>(name, child). if walked_into child then os_walk child else []"
    let ?links = "\<lambda>(name, child). dir_link_weight name child +
        (if walked_into child then tally dir_link_weight child else 0)"
    let ?folders = "\<lambda>(name, child). folder_weight name child +
        (if walked_into child then tally folder_weight child else 0)"
    have below: "list_all (\<lambda>(name, child). entry_error child \<noteq> Some PermissionError \<and>
        (walked_into child \<longrightarrow> fully_accessible child)) es"
      using "1.prems" by (subst (asm) fully_accessible.simps) (simp add: Inr)
    have entry: "int (length (?sub e)) + ?links e = ?folders e" if "e \<in> set es" for e
    proof -
      obtain n c where e: "e = (n, c)" by (cases e)
      show ?thesis
      proof (cases "walked_into c")
        case True
        then have "fully_accessible c"
          using below that by (auto simp: list_all_iff e)
        from "1.IH" [OF Inr that e [symmetric] True this]
        have walked: "int (length (os_walk c)) + tally dir_link_weight c =
            1 + tally folder_weight c" .
        have "dir_link_weight n c = 0" and "folder_weight n c = 1"
          using True
          by (auto simp: dir_link_weight_def folder_weight_def walked_into_def is_dir_or_false_def
              split: sum.splits)
        with walked True show ?thesis
          by (simp add: e)
      next
        case False
        then show ?thesis
          by (auto simp: e dir_link_weight_def folder_weight_def walked_into_def is_dir_or_false_def
              split: sum.splits)
      qed
    qed
    have "int (length (os_walk top_dir)) + tally dir_link_weight top_dir =
        1 + (sum_list (map (\<lambda>e. int (length (?sub e))) es) + sum_list (map ?links es))"
      by (subst os_walk.simps, subst tally.simps) (simp add: Inr length_concat_map)
    also have "sum_list (map (\<lambda>e. int (length (?sub e))) es) + sum_list (map ?links es) =
        sum_list (map (\<lambda>e. int (length (?sub e)) + ?links e) es)"
      by (simp add: sum_list_addf)
    also have "\<dots> = sum_list (map ?folders es)"
      by (rule arg_cong [where f = sum_list], rule map_cong) (simp_all add: entry)
    also have "1 + \<dots> = 1 + tally folder_weight top_dir"
      by (subst tally.simps) (simp add: Inr)
    finally show ?thesis .
  qed
qed

lemma tally_listed:
  assumes "scandir dir = Inr entries"
  shows "tally weight dir =
    sum_mset (image_mset (\<lambda>(name, child). weight name child +
        (if walked_into child then tally weight child else 0)) (mset entries))"
proof -
  have "sum_list (map f entries) = sum_mset (image_mset f (mset entries))"
    for f :: "string \<times> node \<Rightarrow> int"
    by (metis mset_map sum_mset_sum_list)
  then show ?thesis
    using assms by (subst tally.simps) simp
qed

lemma tally_empty: "tally weight (Directory True []) = 0"
  by (subst tally.simps) simp



lemma categorize_examples:
  "categorize_file os ''a.jpg'' = ''Images''"
  "categorize_file os ''b.mp3'' = ''Audio''"
  "categorize_file os ''c.xyz'' = ''Other''"
proof -
  have "categorize_file Nt ''a.jpg'' = ''Images''" "categorize_file Posix ''a.jpg'' = ''Images''"
    by code_simp+
  then show "categorize_file os ''a.jpg'' = ''Images''" by (cases os) simp_all
  have "categorize_file Nt ''b.mp3'' = ''Audio''" "categorize_file Posix ''b.mp3'' = ''Audio''"
    by code_simp+
  then show "categorize_file os ''b.mp3'' = ''Audio''" by (cases os) simp_all
  have "categorize_file Nt ''c.xyz'' = ''Other''" "categorize_file Posix ''c.xyz'' = ''Other''"
    by code_simp+
  then show "categorize_file os ''c.xyz'' = ''Other''" by (cases os) simp_all
qed

lemma flat_tree_quiet:
  assumes "\<forall>(name, entry) \<in> set entries. entry = RegularFile \<or> entry = Directory True []"
  shows "no_entry_raises (Directory True entries)"
proof -
  let ?root = "Directory True entries"
  have sub: "x = Directory True []"
    if "(name, child) \<in> set entries" "walked_into child" "x \<in> set (os_walk child)"
    for name child x
  proof -
    from assms that(1) consider "child = RegularFile" | "child = Directory True []"
      by auto
    then show ?thesis
      using that(2,3)
      by cases (simp_all add: walked_into_def is_dir_or_false_def os_walk.simps)
  qed
  have dirs: "d = ?root \<or> d = Directory True []" if "d \<in> set (os_walk ?root)" for d
    using that by (subst (asm) os_walk.simps) (auto split: if_splits dest: sub)
  have quiet: "entry_error entry = None" if "(name, entry) \<in> set entries" for name entry
    using assms that by (auto simp: entry_error_def)
  have "list_all (\<lambda>(name, entry). entry_error entry = None) (listing d)"
    if "d \<in> set (os_walk ?root)" for d
  proof -
    from dirs [OF that] consider "d = ?root" | "d = Directory True []"
      by auto
    then show ?thesis
      by cases (auto simp: listing_def list_all_iff quiet)
  qed
  then show ?thesis
    by (simp add: no_entry_raises_def walked_entries_all)
qed

text \<open>
  Claim C1 says that a scan of a root path that does not exist fails with a
  \<^verbatim>\<open>NotFound\<close> error. The function has no such failure: \<^verbatim>\<open>os.walk\<close> drops
  the error of \<^verbatim>\<open>os.scandir\<close>, no directory is discovered, the counting loop
  does not run, and the zero-valued result is returned. At a root that is absent:
\<close>

theorem missing_root_counterexample:
  "count_files_with_details Nt Absent \<noteq> Inl FileNotFoundError \<and>
   count_files_with_details Nt Absent =
     Inr \<lparr>total_files = 0, folder_count = 0, category_counts = [], events = []\<rparr>"
  by (simp add: count_files_with_details_def os_walk.simps initial_state_def)

text \<open>
  Claim C1, as amended: for every root path that does not exist (a dangling symbolic
  link included) the scan returns normally, with \<^verbatim>\<open>total_files = 0\<close>,
  \<^verbatim>\<open>folder_count = 0\<close>, an empty \<^verbatim>\<open>category_counts\<close> and no event at all,
  so no call of \<^verbatim>\<open>progress_bar\<close>.
\<close>

theorem missing_root_zero:
  "\<not> path_exists path \<Longrightarrow>
   count_files_with_details os path =
     Inr \<lparr>total_files = 0, folder_count = 0, category_counts = [], events = []\<rparr>"
  using scan_unlistable [OF missing_not_listable] by (simp add: initial_state_def)

theorem missing_root_zero_witness:
  "\<not> path_exists (Symlink Absent) \<and>
   count_files_with_details Posix (Symlink Absent) =
     Inr \<lparr>total_files = 0, folder_count = 0, category_counts = [], events = []\<rparr> \<and>
   progress_calls \<lparr>total_files = 0, folder_count = 0, category_counts = [], events = []\<rparr> = []"
  using missing_root_zero [of "Symlink Absent" Posix] by (simp add: progress_calls_def)

text \<open>
  Claim C2 says that a scan of a root that exists but may not be listed fails with a
  \<^verbatim>\<open>PermissionDenied\<close> error. Again \<^verbatim>\<open>os.walk\<close> drops the error, and the
  zero-valued result is returned. At a directory that holds a file but may not be
  listed:
\<close>

theorem denied_root_counterexample:
  "path_exists (Directory False [(''a.txt'', RegularFile)]) \<and>
   scandir (Directory False [(''a.txt'', RegularFile)]) = Inl PermissionError \<and>
   count_files_with_details Nt (Directory False [(''a.txt'', RegularFile)]) =
     Inr \<lparr>total_files = 0, folder_count = 0, category_counts = [], events = []\<rparr>"
  by (simp add: count_files_with_details_def os_walk.simps initial_state_def)

text \<open>
  Claim C2, as amended: for every root path that exists but cannot be listed the scan
  returns normally, with \<^verbatim>\<open>total_files = 0\<close>, \<^verbatim>\<open>folder_count = 0\<close>, an
  empty \<^verbatim>\<open>category_counts\<close> and no event at all, so no call of
  \<^verbatim>\<open>progress_bar\<close>: denial at the root is tolerated in silence, as denial at
  a subdirectory is.
\<close>

theorem denied_root_zero:
  "scandir path = Inl PermissionError \<Longrightarrow>
   path_exists path \<and>
   count_files_with_details os path =
     Inr \<lparr>total_files = 0, folder_count = 0, category_counts = [], events = []\<rparr>"
proof
  assume denied: "scandir path = Inl PermissionError"
  show "path_exists path"
    using denied missing_not_listable [of path] by auto
  show "count_files_with_details os path =
     Inr \<lparr>total_files = 0, folder_count = 0, category_counts = [], events = []\<rparr>"
    using scan_unlistable [OF denied] by (simp add: initial_state_def)
qed

theorem denied_root_zero_witness:
  "scandir (Directory False [(''a.txt'', RegularFile)]) = Inl PermissionError \<and>
   count_files_with_details Posix (Directory False [(''a.txt'', RegularFile)]) =
     Inr \<lparr>total_files = 0, folder_count = 0, category_counts = [], events = []\<rparr> \<and>
   progress_calls \<lparr>total_files = 0, folder_count = 0, category_counts = [], events = []\<rparr> = []"
  using denied_root_zero [of "Directory False [(''a.txt'', RegularFile)]" Posix]
  by (simp add: progress_calls_def)

text \<open>
  Claim C3. For every scan that returns a result, the values of
  \<^verbatim>\<open>category_counts\<close> add up to \<^verbatim>\<open>total_files\<close>. (The two are
  incremented together, so this also holds of a listing that is left half way.)
\<close>

theorem category_counts_sum:
  assumes "count_files_with_details os path = Inr r"
  shows "sum_list (map snd (category_counts r)) = total_files r"
proof (rule count_dirs_invariant
    [where P = "\<lambda>st. sum_list (map snd (category_counts st)) = total_files st"])
  show "count_dirs os (os_walk path) 1 (int (length (os_walk path))) initial_state = Inr r"
    using assms by (simp add: count_files_with_details_def Let_def)
qed (simp_all add: count_entries_balance log_event_def initial_state_def)

theorem category_counts_sum_witness:
  "count_files_with_details Nt
     (Directory True [(''a.jpg'', RegularFile),
        (''d'', Directory True [(''x.PY'', RegularFile), (''y'', RegularFile)])]) =
     Inr \<lparr>total_files = 3, folder_count = 1,
          category_counts = [(''Images'', 1), (''Scripts'', 1), (''Other'', 1)],
          events = [Scandir 1, Entry ''a.jpg'', Entry ''d'', Progress 1 2,
                    Scandir 2, Entry ''x.PY'', Entry ''y'', Progress 2 2]\<rparr> \<and>
   sum_list (map snd [(''Images'', 1), (''Scripts'', 1), (''Other'', 1 :: int)]) = 3"
proof -
  have scan: "count_files_with_details Nt
     (Directory True [(''a.jpg'', RegularFile),
        (''d'', Directory True [(''x.PY'', RegularFile), (''y'', RegularFile)])]) =
     Inr \<lparr>total_files = 3, folder_count = 1,
          category_counts = [(''Images'', 1), (''Scripts'', 1), (''Other'', 1)],
          events = [Scandir 1, Entry ''a.jpg'', Entry ''d'', Progress 1 2,
                    Scandir 2, Entry ''x.PY'', Entry ''y'', Progress 2 2]\<rparr>"
    by code_simp
  from category_counts_sum [OF scan] scan show ?thesis by simp
qed






text \<open>
  Claim C10 says that on a fully accessible tree \<^verbatim>\<open>folder_count\<close> is the number
  of directories found by the discovery pass minus one. An entry that is a symbolic
  link to a directory breaks this: \<^verbatim>\<open>is_dir()\<close> holds of it, so it is counted as
  a folder, but \<^verbatim>\<open>os.walk\<close> does not walk into it, so it is not among the
  directories discovered.
\<close>

theorem symlinked_folder_counterexample:
  "fully_accessible (Directory True [(''link'', Symlink (Directory True []))]) \<and>
   count_files_with_details Nt (Directory True [(''link'', Symlink (Directory True []))]) =
     Inr \<lparr>total_files = 0, folder_count = 1, category_counts = [],
          events = [Scandir 1, Entry ''link'', Progress 1 1]\<rparr> \<and>
   int (length (os_walk (Directory True [(''link'', Symlink (Directory True []))]))) - 1 = 0"
  by code_simp

text \<open>
  Claim C10, as amended: the root is never counted in \<^verbatim>\<open>folder_count\<close>, which
  counts the directory entries of the listed directories; for every fully accessible
  tree it equals the number of directories found by the discovery pass minus one,
  plus the number of listed entries that are symbolic links to directories. For a
  fully accessible tree without such links it is the number of directories found
  minus one.
\<close>

theorem folder_count_is_walked_dirs:
  assumes "fully_accessible path" and "count_files_with_details os path = Inr r"
  shows "folder_count r = int (length (os_walk path)) - 1 + tally dir_link_weight path \<and>
    (tally dir_link_weight path = 0 \<longrightarrow> folder_count r = int (length (os_walk path)) - 1)"
proof -
  have "list_all (\<lambda>(name, entry). entry_error entry \<noteq> Some PermissionError) (walked_entries path)"
    using fully_accessible_none_denied [OF assms(1)] by (simp add: walked_entries_all)
  from scan_folders [OF assms(2) this] walk_count [OF assms(1)] show ?thesis
    by simp
qed

theorem folder_count_is_walked_dirs_witness:
  "fully_accessible (Directory True
      [(''docs'', Directory True [(''old'', Directory True [])]), (''f.txt'', RegularFile)]) \<and>
   count_files_with_details Nt (Directory True
      [(''docs'', Directory True [(''old'', Directory True [])]), (''f.txt'', RegularFile)]) =
     Inr \<lparr>total_files = 1, folder_count = 2, category_counts = [(''Documents'', 1)],
          events = [Scandir 1, Entry ''docs'', Entry ''f.txt'', Progress 1 3,
                    Scandir 2, Entry ''old'', Progress 2 3, Scandir 3, Progress 3 3]\<rparr> \<and>
   tally dir_link_weight (Directory True
      [(''docs'', Directory True [(''old'', Directory True [])]), (''f.txt'', RegularFile)]) = 0 \<and>
   int (length (os_walk (Directory True
      [(''docs'', Directory True [(''old'', Directory True [])]), (''f.txt'', RegularFile)]))) - 1 = 2"
proof -
  let ?t = "Directory True
      [(''docs'', Directory True [(''old'', Directory True [])]), (''f.txt'', RegularFile)]"
  have accessible: "fully_accessible ?t"
    by code_simp
  have scan: "count_files_with_details Nt ?t =
     Inr \<lparr>total_files = 1, folder_count = 2, category_counts = [(''Documents'', 1)],
          events = [Scandir 1, Entry ''docs'', Entry ''f.txt'', Progress 1 3,
                    Scandir 2, Entry ''old'', Progress 2 3, Scandir 3, Progress 3 3]\<rparr>"
    by code_simp
  have links: "tally dir_link_weight ?t = 0"
    by code_simp
  from folder_count_is_walked_dirs [OF accessible scan] accessible scan links
  show ?thesis by simp
qed

text \<open>
  Claim C8. A root that holds exactly the files \<^verbatim>\<open>a.jpg\<close>, \<^verbatim>\<open>b.mp3\<close>,
  \<^verbatim>\<open>c.xyz\<close> and one empty subfolder \<^verbatim>\<open>sub\<close>, listed in any order, is
  scanned to \<^verbatim>\<open>total_files = 3\<close>, \<^verbatim>\<open>folder_count = 1\<close> and the dictionary
  \<^verbatim>\<open>{"Images": 1, "Audio": 1, "Other": 1}\<close>. An empty root is scanned to
  \<^verbatim>\<open>total_files = 0\<close>, \<^verbatim>\<open>folder_count = 0\<close> and an empty dictionary (with
  one call of \<^verbatim>\<open>progress_bar\<close>).
\<close>

theorem example_scans:
  "(mset entries = {#(''a.jpg'', RegularFile), (''b.mp3'', RegularFile), (''c.xyz'', RegularFile),
                     (''sub'', Directory True [])#} \<longrightarrow>
     (\<exists>r. count_files_with_details os (Directory True entries) = Inr r \<and>
        total_files r = 3 \<and> folder_count r = 1 \<and>
        map_of (category_counts r) = [''Images'' \<mapsto> 1, ''Audio'' \<mapsto> 1, ''Other'' \<mapsto> 1])) \<and>
   count_files_with_details os (Directory True []) =
     Inr \<lparr>total_files = 0, folder_count = 0, category_counts = [],
          events = [Scandir 1, Progress 1 1]\<rparr>"
proof (intro conjI impI)
  assume entries: "mset entries = {#(''a.jpg'', RegularFile), (''b.mp3'', RegularFile),
      (''c.xyz'', RegularFile), (''sub'', Directory True [])#}"
  let ?root = "Directory True entries"
  have listed: "scandir ?root = Inr entries" by simp
  have "set entries = set_mset (mset entries)"
    by simp
  also have "\<dots> = {(''a.jpg'', RegularFile), (''b.mp3'', RegularFile), (''c.xyz'', RegularFile),
      (''sub'', Directory True [])}"
    unfolding entries by simp
  finally have "\<forall>(name, entry) \<in> set entries. entry = RegularFile \<or> entry = Directory True []"
    by simp
  then have quiet: "no_entry_raises ?root"
    by (rule flat_tree_quiet)
  note none = no_entry_raises_none_denied [OF quiet]
  obtain r where r: "count_files_with_details os ?root = Inr r"
    using scan_returns [OF no_entry_raises_tolerated [OF quiet]] by blast
  have files: "total_files r = 3"
    unfolding scan_files [OF r none] tally_listed [OF listed] entries
    by (simp add: file_weight_def tally_empty walked_into_def is_dir_or_false_def)
  have folders: "folder_count r = 1"
    unfolding scan_folders [OF r none] tally_listed [OF listed] entries
    by (simp add: folder_weight_def tally_empty walked_into_def is_dir_or_false_def)
  have category: "count_of category (category_counts r) =
      (if category = ''Images'' then 1 else 0) + (if category = ''Audio'' then 1 else 0) +
      (if category = ''Other'' then 1 else 0)" for category
    unfolding scan_category [OF r none] tally_listed [OF listed] entries
    by (simp add: category_weight_def tally_empty categorize_examples walked_into_def
        is_dir_or_false_def)
  have "map_of (category_counts r) category =
      [''Images'' \<mapsto> 1, ''Audio'' \<mapsto> 1, ''Other'' \<mapsto> 1] category" for category
    unfolding map_of_positive [OF scan_positive [OF r]] category
    by simp
  then have "map_of (category_counts r) = [''Images'' \<mapsto> 1, ''Audio'' \<mapsto> 1, ''Other'' \<mapsto> 1]"
    by (rule ext)
  with r files folders
  show "\<exists>r. count_files_with_details os ?root = Inr r \<and>
        total_files r = 3 \<and> folder_count r = 1 \<and>
        map_of (category_counts r) = [''Images'' \<mapsto> 1, ''Audio'' \<mapsto> 1, ''Other'' \<mapsto> 1]"
    by blast
next
  show "count_files_with_details os (Directory True []) =
     Inr \<lparr>total_files = 0, folder_count = 0, category_counts = [],
          events = [Scandir 1, Progress 1 1]\<rparr>"
    by (simp add: count_files_with_details_def os_walk.simps initial_state_def progress_bar_def
        log_event_def try_body_def)
qed

theorem example_scans_witness:
  "mset [(''a.jpg'', RegularFile), (''b.mp3'', RegularFile), (''c.xyz'', RegularFile),
         (''sub'', Directory True [])] =
     {#(''a.jpg'', RegularFile), (''b.mp3'', RegularFile), (''c.xyz'', RegularFile),
       (''sub'', Directory True [])#} \<and>
   count_files_with_details Nt
     (Directory True [(''a.jpg'', RegularFile), (''b.mp3'', RegularFile), (''c.xyz'', RegularFile),
         (''sub'', Directory True [])]) =
     Inr \<lparr>total_files = 3, folder_count = 1,
          category_counts = [(''Images'', 1), (''Audio'', 1), (''Other'', 1)],
          events = [Scandir 1, Entry ''a.jpg'', Entry ''b.mp3'', Entry ''c.xyz'', Entry ''sub'',
                    Progress 1 2, Scandir 2, Progress 2 2]\<rparr> \<and>
   map_of [(''Images'', 1 :: int), (''Audio'', 1), (''Other'', 1)] =
     [''Images'' \<mapsto> 1, ''Audio'' \<mapsto> 1, ''Other'' \<mapsto> 1]"
proof -
  let ?es = "[(''a.jpg'', RegularFile), (''b.mp3'', RegularFile), (''c.xyz'', RegularFile),
         (''sub'', Directory True [])]"
  have entries: "mset ?es = {#(''a.jpg'', RegularFile), (''b.mp3'', RegularFile),
      (''c.xyz'', RegularFile), (''sub'', Directory True [])#}"
    by simp
  have scan: "count_files_with_details Nt (Directory True ?es) =
     Inr \<lparr>total_files = 3, folder_count = 1,
          category_counts = [(''Images'', 1), (''Audio'', 1), (''Other'', 1)],
          events = [Scandir 1, Entry ''a.jpg'', Entry ''b.mp3'', Entry ''c.xyz'', Entry ''sub'',
                    Progress 1 2, Scandir 2, Progress 2 2]\<rparr>"
    by code_simp
  from example_scans [of ?es Nt] entries scan show ?thesis
    by simp
qed

end
